theory Spec2Isabelle
  imports Main "HOL-Library.AList" "HOL-Library.Extended_Nat" "HOL-Library.Sublist"
begin

section \<open>Data model and construction\<close>

text \<open>
  Variable names are Python values used as dictionary keys and tested for truthiness
  (\<^verbatim>\<open>if not min_variable\<close>). They are strings or integers; Python's \<^verbatim>\<open>False\<close> and
  \<^verbatim>\<open>True\<close> are the integers 0 and 1 as dictionary keys (\<^verbatim>\<open>False == 0\<close> and both hash
  alike), so \<open>PInt 0\<close> stands for both \<^verbatim>\<open>0\<close> and \<^verbatim>\<open>False\<close>.
\<close>

datatype name = PStr string | PInt int

fun truthy :: "name \<Rightarrow> bool" where
  "truthy (PStr s) = (s \<noteq> [])"
| "truthy (PInt n) = (n \<noteq> 0)"

datatype error = KeyError | IndexError | ValueError

text \<open>
  A Python dictionary is an association list: \<open>map_of\<close> reads a key, \<open>AList.update\<close>
  stores one (in place when the key is present), and the order of the list is the order in
  which the dictionary is iterated. A dictionary holds one entry per key, so iterating
  visits the first entry of every key.
\<close>

type_synonym ('k, 'v) dict = "('k \<times> 'v) list"

definition iteritems :: "('k, 'v) dict \<Rightarrow> ('k \<times> 'v) list" where
  "iteritems d = AList.clearjunk d"

definition keys :: "('k, 'v) dict \<Rightarrow> 'k list" where
  "keys d = map fst (iteritems d)"

definition getitem :: "('k, 'v) dict \<Rightarrow> 'k \<Rightarrow> error + 'v" where
  "getitem d k = (case map_of d k of None \<Rightarrow> Inl KeyError | Some v \<Rightarrow> Inr v)"

type_synonym arc = "name \<times> name"

type_synonym 'a assignment = "(name, 'a list) dict"

type_synonym 'a constraint_graph = "(name, (name, ('a \<times> 'a) list) dict) dict"

record 'a CSP =
  variables :: "name list"
  domains :: "'a assignment"
  constraints :: "'a constraint_graph"
  b_counter :: int
  f_counter :: int

definition CSP_init :: "'a CSP" where
  "CSP_init = \<lparr>variables = [], domains = [], constraints = [], b_counter = 0, f_counter = 0\<rparr>"

definition add_variable :: "'a CSP \<Rightarrow> name \<Rightarrow> 'a list \<Rightarrow> 'a CSP" where
  "add_variable csp nm domain =
     csp\<lparr>variables := variables csp @ [nm],
         domains := AList.update nm domain (domains csp),
         constraints := AList.update nm [] (constraints csp)\<rparr>"

definition get_all_possible_pairs :: "'a list \<Rightarrow> 'b list \<Rightarrow> ('a \<times> 'b) list" where
  "get_all_possible_pairs a b = List.product a b"

definition get_all_arcs :: "'a CSP \<Rightarrow> arc list" where
  "get_all_arcs csp =
     concat (map (\<lambda>(i, ci). map (\<lambda>j. (i, j)) (keys ci)) (iteritems (constraints csp)))"

definition get_all_neighboring_arcs :: "'a CSP \<Rightarrow> name \<Rightarrow> error + arc list" where
  "get_all_neighboring_arcs csp var =
     (case getitem (constraints csp) var of
        Inl e \<Rightarrow> Inl e
      | Inr cv \<Rightarrow> Inr (map (\<lambda>i. (i, var)) (keys cv)))"

text \<open>\<^verbatim>\<open>self.constraints[i][j]\<close>: two dictionary reads, each of which can raise.\<close>

definition constraint :: "'a CSP \<Rightarrow> name \<Rightarrow> name \<Rightarrow> error + ('a \<times> 'a) list" where
  "constraint csp i j =
     (case getitem (constraints csp) i of
        Inl e \<Rightarrow> Inl e
      | Inr ci \<Rightarrow> getitem ci j)"

text \<open>
  \<^verbatim>\<open>add_constraint_one_way\<close>: the product is computed only when \<open>j\<close> is not yet a key of
  \<^verbatim>\<open>self.constraints[i]\<close>; the stored list is then filtered (Python 2's \<^verbatim>\<open>filter\<close>
  returns a list).
\<close>

definition add_constraint_one_way ::
  "'a CSP \<Rightarrow> name \<Rightarrow> name \<Rightarrow> ('a \<Rightarrow> 'a \<Rightarrow> bool) \<Rightarrow> error + 'a CSP" where
  "add_constraint_one_way csp i j filter_function =
     (case getitem (constraints csp) i of
        Inl e \<Rightarrow> Inl e
      | Inr ci \<Rightarrow>
          (case (if j \<notin> set (keys ci)
                 then (case getitem (domains csp) i of
                         Inl e \<Rightarrow> Inl e
                       | Inr di \<Rightarrow>
                           (case getitem (domains csp) j of
                              Inl e \<Rightarrow> Inl e
                            | Inr dj \<Rightarrow> Inr (AList.update j (get_all_possible_pairs di dj) ci)))
                 else Inr ci) of
             Inl e \<Rightarrow> Inl e
           | Inr ci1 \<Rightarrow>
               (case getitem ci1 j of
                  Inl e \<Rightarrow> Inl e
                | Inr stored \<Rightarrow>
                    Inr (csp\<lparr>constraints :=
                           AList.update i
                             (AList.update j
                                (filter (\<lambda>value_pair. filter_function (fst value_pair) (snd value_pair))
                                   stored) ci1)
                             (constraints csp)\<rparr>))))"

text \<open>
  The inner loop of \<^verbatim>\<open>revise\<close>: is there a \<open>y\<close> in \<^verbatim>\<open>assignment[j]\<close> with \<open>(x, y)\<close> in
  \<^verbatim>\<open>self.constraints[i][j]\<close>? The constraint is read once per iteration, so an empty
  \<^verbatim>\<open>assignment[j]\<close> never reads it.
\<close>

fun satisfiable :: "'a CSP \<Rightarrow> name \<Rightarrow> name \<Rightarrow> 'a \<Rightarrow> 'a list \<Rightarrow> error + bool" where
  "satisfiable csp i j x [] = Inr False"
| "satisfiable csp i j x (y # ys) =
     (case constraint csp i j of
        Inl e \<Rightarrow> Inl e
      | Inr ps \<Rightarrow> if (x, y) \<in> set ps then Inr True else satisfiable csp i j x ys)"

text \<open>
  The outer loop \<^verbatim>\<open>for x in assignment[i]\<close> runs over the list that its own body shortens
  with \<^verbatim>\<open>assignment[i].remove(x)\<close>. Python's list iterator keeps an index into the live
  list: it stops when the index reaches the current length and otherwise yields the element
  at the index and advances by one. \<open>idx\<close> is that index; \<open>remove1\<close> is \<^verbatim>\<open>list.remove\<close>
  (the first occurrence).
\<close>

function revise_loop ::
  "'a CSP \<Rightarrow> name \<Rightarrow> name \<Rightarrow> 'a assignment \<Rightarrow> nat \<Rightarrow> bool \<Rightarrow> error + ('a assignment \<times> bool)" where
  "revise_loop csp i j assignment idx revised =
     (case map_of assignment i of
        None \<Rightarrow> Inl KeyError
      | Some di \<Rightarrow>
          if idx < length di then
            (case getitem assignment j of
               Inl e \<Rightarrow> Inl e
             | Inr dj \<Rightarrow>
                 (case satisfiable csp i j (di ! idx) dj of
                    Inl e \<Rightarrow> Inl e
                  | Inr sat \<Rightarrow>
                      if \<not> sat
                      then revise_loop csp i j
                             (AList.update i (remove1 (di ! idx) di) assignment) (idx + 1) True
                      else revise_loop csp i j assignment (idx + 1) revised))
          else Inr (assignment, revised))"
  by pat_completeness auto

termination
proof (relation "measure (\<lambda>(csp, i, j, a, idx, revised). length (the (map_of a i)) - idx)")
  show "wf (measure (\<lambda>(csp, i, j, a, idx, revised). length (the (map_of a i)) - idx))"
    by simp
next
  fix csp :: "'a CSP" and i j :: name and assignment :: "'a assignment"
    and idx :: nat and revised :: bool and di dj :: "'a list" and sat :: bool
  assume "map_of assignment i = Some di" "idx < length di"
  then show "((csp, i, j, AList.update i (remove1 (di ! idx) di) assignment, idx + 1, True),
              (csp, i, j, assignment, idx, revised))
             \<in> measure (\<lambda>(csp, i, j, a, idx, revised). length (the (map_of a i)) - idx)"
    by (simp add: update_conv' length_remove1)
next
  fix csp :: "'a CSP" and i j :: name and assignment :: "'a assignment"
    and idx :: nat and revised :: bool and di dj :: "'a list" and sat :: bool
  assume "map_of assignment i = Some di" "idx < length di"
  then show "((csp, i, j, assignment, idx + 1, revised), (csp, i, j, assignment, idx, revised))
             \<in> measure (\<lambda>(csp, i, j, a, idx, revised). length (the (map_of a i)) - idx)"
    by simp
qed

declare revise_loop.simps [simp del]

definition revise :: "'a CSP \<Rightarrow> 'a assignment \<Rightarrow> name \<Rightarrow> name \<Rightarrow> error + ('a assignment \<times> bool)" where
  "revise csp assignment i j = revise_loop csp i j assignment 0 False"

text \<open>
  \<^verbatim>\<open>if not neighbor == j\<close> compares \<open>neighbor\<close>, a tuple \<open>(k, i)\<close> built by
  \<^verbatim>\<open>get_all_neighboring_arcs\<close>, with \<open>j\<close>, a variable name. A Python tuple never equals
  a string or an integer, so the comparison is \<^verbatim>\<open>False\<close> for every arc and every name.
\<close>

definition tuple_eq_name :: "arc \<Rightarrow> name \<Rightarrow> bool" where
  "tuple_eq_name neighbor j = False"

text \<open>The \<^verbatim>\<open>for neighbor in ...\<close> loop of \<^verbatim>\<open>inference\<close>, appending to the queue.\<close>

fun append_neighbors :: "arc list \<Rightarrow> arc list \<Rightarrow> name \<Rightarrow> arc list" where
  "append_neighbors queue [] j = queue"
| "append_neighbors queue (neighbor # rest) j =
     (if \<not> tuple_eq_name neighbor j
      then append_neighbors (queue @ [neighbor]) rest j
      else append_neighbors queue rest j)"

text \<open>
  One iteration of the \<^verbatim>\<open>while queue\<close> loop, after \<^verbatim>\<open>queue.pop(0)\<close> has split the
  queue into the arc \<open>(i, j)\<close> and the rest. The result is the assignment as mutated and
  either \<open>None\<close> (\<^verbatim>\<open>return False\<close>) or the queue for the next iteration.
\<close>

definition inference_step ::
  "'a CSP \<Rightarrow> 'a assignment \<Rightarrow> arc \<Rightarrow> arc list \<Rightarrow> error + ('a assignment \<times> arc list option)" where
  "inference_step csp assignment a queue =
     (case revise csp assignment (fst a) (snd a) of
        Inl e \<Rightarrow> Inl e
      | Inr (assignment', revised) \<Rightarrow>
          if revised then
            (case getitem assignment' (fst a) of
               Inl e \<Rightarrow> Inl e
             | Inr di \<Rightarrow>
                 if length di = 0 then Inr (assignment', None)
                 else (case get_all_neighboring_arcs csp (fst a) of
                         Inl e \<Rightarrow> Inl e
                       | Inr neighbors \<Rightarrow>
                           Inr (assignment', Some (append_neighbors queue neighbors (snd a)))))
          else Inr (assignment', Some queue))"

text \<open>
  The scan of \<^verbatim>\<open>select_minimum_remaining_variable\<close>: \<open>minimum\<close> starts at
  \<^verbatim>\<open>float("inf")\<close>, \<open>min_variable\<close> at \<^verbatim>\<open>None\<close>.
\<close>

fun mrv_step :: "enat \<times> name option \<Rightarrow> name \<times> 'a list \<Rightarrow> enat \<times> name option" where
  "mrv_step (minimum, min_variable) (key, val) =
     (if length val > 1 then
        (if enat (length val) < minimum then (enat (length val), Some key)
         else (minimum, min_variable))
      else (minimum, min_variable))"

definition mrv_scan :: "'a assignment \<Rightarrow> enat \<times> name option" where
  "mrv_scan assignment = foldl mrv_step (\<infinity>, None) (iteritems assignment)"

text \<open>
  The result is \<open>None\<close> for Python's \<^verbatim>\<open>False\<close>. \<^verbatim>\<open>if not min_variable\<close> is true for
  \<^verbatim>\<open>None\<close> and for every falsy name.
\<close>

definition select_minimum_remaining_variable :: "'a assignment \<Rightarrow> name option" where
  "select_minimum_remaining_variable assignment =
     (case snd (mrv_scan assignment) of
        None \<Rightarrow> None
      | Some min_variable \<Rightarrow> if \<not> truthy min_variable then None else Some min_variable)"

text \<open>The number of variables whose domain holds more than one value.\<close>

definition unassigned :: "'a assignment \<Rightarrow> nat" where
  "unassigned assignment = length (filter (\<lambda>(k, d). 1 < length d) (iteritems assignment))"

text \<open>The sum of the domain sizes.\<close>

definition total_size :: "'a assignment \<Rightarrow> nat" where
  "total_size assignment = sum_list (map (\<lambda>(k, d). length d) assignment)"

section \<open>Inference (AC-3), backtracking search and the N-queens builder\<close>

function inference :: "'a CSP \<Rightarrow> 'a assignment \<Rightarrow> arc list \<Rightarrow> error + ('a assignment \<times> bool)" where
  "inference csp assignment [] = Inr (assignment, True)"
| "inference csp assignment (a # queue) =
     (case inference_step csp assignment a queue of
        Inl e \<Rightarrow> Inl e
      | Inr (assignment', None) \<Rightarrow> Inr (assignment', False)
      | Inr (assignment', Some queue') \<Rightarrow> inference csp assignment' queue')"
  by pat_completeness auto

text \<open>
  \<^verbatim>\<open>backtrack\<close> returns \<^verbatim>\<open>False\<close> (\<open>None\<close>) or an assignment. \<^verbatim>\<open>if result\<close> tests
  Python truthiness: \<^verbatim>\<open>False\<close> and the empty dictionary are falsy.
\<close>

definition truthy_result :: "'a assignment option \<Rightarrow> bool" where
  "truthy_result result = (case result of None \<Rightarrow> False | Some a \<Rightarrow> a \<noteq> [])"

text \<open>
  \<open>backtrack_values\<close> is the loop \<^verbatim>\<open>for value in assignment[var]\<close> over the values not
  yet tried. \<^verbatim>\<open>copy.deepcopy(assignment)\<close> followed by \<^verbatim>\<open>new_assignment[var] = [value]\<close>
  is \<open>AList.update var [v] assignment\<close>: the model passes values, so the caller's
  assignment is untouched by what \<^verbatim>\<open>inference\<close> does to the copy. The counters
  \<^verbatim>\<open>b_counter\<close> and \<^verbatim>\<open>f_counter\<close> are fields of the CSP object, which is threaded through.
\<close>

function backtrack :: "'a CSP \<Rightarrow> 'a assignment \<Rightarrow> error + ('a assignment option \<times> 'a CSP)"
  and backtrack_values ::
    "'a CSP \<Rightarrow> 'a assignment \<Rightarrow> name \<Rightarrow> 'a list \<Rightarrow> error + ('a assignment option \<times> 'a CSP)" where
  "backtrack csp assignment =
     (case select_minimum_remaining_variable assignment of
        None \<Rightarrow> Inr (Some assignment, csp\<lparr>b_counter := b_counter csp + 1\<rparr>)
      | Some var \<Rightarrow>
          (case getitem assignment var of
             Inl e \<Rightarrow> Inl e
           | Inr vals \<Rightarrow>
               backtrack_values (csp\<lparr>b_counter := b_counter csp + 1\<rparr>) assignment var vals))"
| "backtrack_values csp assignment var [] = Inr (None, csp\<lparr>f_counter := f_counter csp + 1\<rparr>)"
| "backtrack_values csp assignment var (v # rest) =
     (case get_all_neighboring_arcs csp var of
        Inl e \<Rightarrow> Inl e
      | Inr queue \<Rightarrow>
          (case inference csp (AList.update var [v] assignment) queue of
             Inl e \<Rightarrow> Inl e
           | Inr (new_assignment, ok) \<Rightarrow>
               if ok then
                 (case backtrack csp new_assignment of
                    Inl e \<Rightarrow> Inl e
                  | Inr (result, csp') \<Rightarrow>
                      if truthy_result result then Inr (result, csp')
                      else backtrack_values csp' assignment var rest)
               else backtrack_values csp assignment var rest))"
  by pat_completeness auto

text \<open>
  \<^verbatim>\<open>backtracking_search\<close>: the assignment is a deep copy of \<^verbatim>\<open>self.domains\<close>; the value
  returned by the first \<^verbatim>\<open>inference\<close> call is discarded, the assignment it mutated is kept.
\<close>

definition backtracking_search :: "'a CSP \<Rightarrow> error + ('a assignment option \<times> 'a CSP)" where
  "backtracking_search csp =
     (case inference csp (domains csp) (get_all_arcs csp) of
        Inl e \<Rightarrow> Inl e
      | Inr (assignment, ok) \<Rightarrow> backtrack csp assignment)"

text \<open>\<^verbatim>\<open>str(x)\<close> for a non-negative integer: its decimal digits.\<close>

definition digit_char :: "nat \<Rightarrow> char" where
  "digit_char d = ''0123456789'' ! d"

function str :: "nat \<Rightarrow> string" where
  "str n = (if n < 10 then [digit_char n] else str (n div 10) @ [digit_char (n mod 10)])"
  by pat_completeness auto

termination
  by (relation "measure id") auto

declare str.simps [simp del]

text \<open>\<^verbatim>\<open>s.split(sep)\<close> for a separator of one character.\<close>

fun split :: "char \<Rightarrow> string \<Rightarrow> string list" where
  "split sep [] = [[]]"
| "split sep (c # cs) =
     (if c = sep then [] # split sep cs
      else (case split sep cs of
              [] \<Rightarrow> [[c]]
            | w # ws \<Rightarrow> (c # w) # ws))"

definition item :: "'a list \<Rightarrow> nat \<Rightarrow> error + 'a" where
  "item xs k = (if k < length xs then Inr (xs ! k) else Inl IndexError)"

text \<open>
  \<^verbatim>\<open>int(s)\<close> on the strings this builder produces, which are the decimal digits written by
  \<^verbatim>\<open>str\<close>: a non-empty string of digits is its value, any other string is a
  \<^verbatim>\<open>ValueError\<close>. (Python also accepts a sign and surrounding blanks, which never occur
  here.)
\<close>

fun digits_value :: "nat \<Rightarrow> string \<Rightarrow> nat option" where
  "digits_value acc [] = Some acc"
| "digits_value acc (c # cs) =
     (if c \<in> set ''0123456789''
      then digits_value (10 * acc + (of_char c - 48)) cs
      else None)"

definition py_int :: "string \<Rightarrow> error + int" where
  "py_int s =
     (if s = [] then Inl ValueError
      else (case digits_value 0 s of None \<Rightarrow> Inl ValueError | Some v \<Rightarrow> Inr (int v)))"

text \<open>
  \<^verbatim>\<open>queenCollision\<close>. The second test is written
  \<^verbatim>\<open>abs(int(x0) - int(y0) == abs(int(x1) - int(y1)))\<close>: the outer \<^verbatim>\<open>abs\<close> is applied to the
  truth value of the comparison, which is 1 or 0.
\<close>

definition queenCollision :: "string \<Rightarrow> string \<Rightarrow> error + bool" where
  "queenCollision x y =
     (case item (split CHR '','' x) 0 of Inl e \<Rightarrow> Inl e | Inr x0 \<Rightarrow>
      case item (split CHR '','' y) 0 of Inl e \<Rightarrow> Inl e | Inr y0 \<Rightarrow>
      if x0 = y0 then Inr True else
      case item (split CHR '','' x) 1 of Inl e \<Rightarrow> Inl e | Inr x1 \<Rightarrow>
      case item (split CHR '','' y) 1 of Inl e \<Rightarrow> Inl e | Inr y1 \<Rightarrow>
      if x1 = y1 then Inr True else
      case py_int x0 of Inl e \<Rightarrow> Inl e | Inr ix0 \<Rightarrow>
      case py_int y0 of Inl e \<Rightarrow> Inl e | Inr iy0 \<Rightarrow>
      case py_int x1 of Inl e \<Rightarrow> Inl e | Inr ix1 \<Rightarrow>
      case py_int y1 of Inl e \<Rightarrow> Inl e | Inr iy1 \<Rightarrow>
      if abs (if ix0 - iy0 = abs (ix1 - iy1) then 1 else 0 :: int) \<noteq> 0 then Inr True
      else Inr False)"

text \<open>\<^verbatim>\<open>[(d, p) for d in ... for p in possible if not queenCollision(d, p)]\<close>\<close>

fun without_collisions :: "(string \<times> string) list \<Rightarrow> error + (string \<times> string) list" where
  "without_collisions [] = Inr []"
| "without_collisions ((d, p) # rest) =
     (case queenCollision d p of
        Inl e \<Rightarrow> Inl e
      | Inr collision \<Rightarrow>
          (case without_collisions rest of
             Inl e \<Rightarrow> Inl e
           | Inr ps \<Rightarrow> Inr (if \<not> collision then (d, p) # ps else ps)))"

text \<open>The two nested loops over \<^verbatim>\<open>csp.variables\<close> that store the constraints.\<close>

fun queen_constraints ::
  "string CSP \<Rightarrow> string list \<Rightarrow> (name \<times> name) list \<Rightarrow> error + string CSP" where
  "queen_constraints csp possible [] = Inr csp"
| "queen_constraints csp possible ((var, var2) # rest) =
     (if var \<noteq> var2 then
        (case getitem (domains csp) var of
           Inl e \<Rightarrow> Inl e
         | Inr dv \<Rightarrow>
             (case without_collisions (List.product dv possible) of
                Inl e \<Rightarrow> Inl e
              | Inr ps \<Rightarrow>
                  (case getitem (constraints csp) var of
                     Inl e \<Rightarrow> Inl e
                   | Inr cv \<Rightarrow>
                       queen_constraints
                         (csp\<lparr>constraints :=
                                AList.update var (AList.update var2 ps cv) (constraints csp)\<rparr>)
                         possible rest)))
      else queen_constraints csp possible rest)"

text \<open>\<^verbatim>\<open>range(n)\<close>, empty when \<open>n\<close> is not positive.\<close>

definition py_range :: "int \<Rightarrow> nat list" where
  "py_range n = [0..<nat n]"

definition create_queen_csp :: "int \<Rightarrow> error + string CSP" where
  "create_queen_csp n =
     (let possible = concat (map (\<lambda>x. map (\<lambda>y. str x @ '','' @ str y) (py_range n)) (py_range n));
          csp = foldl (\<lambda>csp x. add_variable csp (PStr (''Q'' @ str x))
                                  (map (\<lambda>i. str x @ '','' @ str i) (py_range n)))
                  CSP_init (py_range n)
      in queen_constraints csp possible (List.product (variables csp) (variables csp)))"

text \<open>The script's own run: build the CSP, then solve it.\<close>

definition solve_queens :: "int \<Rightarrow> error + (string assignment option \<times> string CSP)" where
  "solve_queens n =
     (case create_queen_csp n of
        Inl e \<Rightarrow> Inl e
      | Inr csp \<Rightarrow> backtracking_search csp)"

section \<open>Notions used to state the properties\<close>

definition narrows :: "'a assignment \<Rightarrow> 'a assignment \<Rightarrow> bool" where
  "narrows a' a = list_all2 (\<lambda>(k', d') (k, d). k' = k \<and> subseq d' d) a' a"

definition unassigned_set :: "'a assignment \<Rightarrow> name set" where
  "unassigned_set a = {k. \<exists>d. map_of a k = Some d \<and> 1 < length d}"

text \<open>
  A sequence of propagation calls on one assignment: each call is \<^verbatim>\<open>revise\<close> on an arc or
  \<^verbatim>\<open>inference\<close> on a queue, and works on the assignment the call before it left.
  \<open>run_calls\<close> gives the assignment after each call, as long as no call raises.
\<close>

datatype call = Revise name name | Inference "arc list"

fun run_call :: "'a CSP \<Rightarrow> 'a assignment \<Rightarrow> call \<Rightarrow> error + 'a assignment" where
  "run_call csp assignment (Revise i j) =
     (case revise csp assignment i j of
        Inl e \<Rightarrow> Inl e
      | Inr (assignment', revised) \<Rightarrow> Inr assignment')"
| "run_call csp assignment (Inference queue) =
     (case inference csp assignment queue of
        Inl e \<Rightarrow> Inl e
      | Inr (assignment', ok) \<Rightarrow> Inr assignment')"

fun run_calls :: "'a CSP \<Rightarrow> 'a assignment \<Rightarrow> call list \<Rightarrow> error + 'a assignment list" where
  "run_calls csp assignment [] = Inr []"
| "run_calls csp assignment (c # cs) =
     (case run_call csp assignment c of
        Inl e \<Rightarrow> Inl e
      | Inr assignment' \<Rightarrow>
          (case run_calls csp assignment' cs of
             Inl e \<Rightarrow> Inl e
           | Inr trace \<Rightarrow> Inr (assignment' # trace)))"

text \<open>
  The recursive calls of \<^verbatim>\<open>backtrack\<close>: \<^verbatim>\<open>backtrack(assignment)\<close> calls
  \<^verbatim>\<open>backtrack(new_assignment)\<close> when \<open>var\<close> is the selected variable, \<open>v\<close> is one of its
  values and \<^verbatim>\<open>inference\<close>, run on the copy with \<open>var\<close> narrowed to \<open>[v]\<close> and the
  neighbouring arcs of \<open>var\<close>, returns \<^verbatim>\<open>True\<close> and leaves \<open>new_assignment\<close>.
\<close>

definition recursive_call :: "'a assignment \<Rightarrow> 'a assignment \<Rightarrow> bool" where
  "recursive_call assignment new_assignment \<longleftrightarrow>
     (\<exists>(csp :: 'a CSP) var vals v queue.
        select_minimum_remaining_variable assignment = Some var
      \<and> getitem assignment var = Inr vals
      \<and> v \<in> set vals
      \<and> get_all_neighboring_arcs csp var = Inr queue
      \<and> inference csp (AList.update var [v] assignment) queue = Inr (new_assignment, True))"

text \<open>
  The constraints are two-way, as the docstring of \<^verbatim>\<open>add_constraint_one_way\<close> asks of its
  callers: wherever \<^verbatim>\<open>constraints[i][j]\<close> is stored, \<^verbatim>\<open>constraints[j][i]\<close> is stored too
  and permits \<open>(y, x)\<close> exactly when the former permits \<open>(x, y)\<close>.
\<close>

definition symmetric_constraints :: "'a CSP \<Rightarrow> bool" where
  "symmetric_constraints csp =
     list_all (\<lambda>(i, ci).
       list_all (\<lambda>(j, ps).
         case constraint csp j i of
           Inl e \<Rightarrow> False
         | Inr ps' \<Rightarrow> list_all (\<lambda>(x, y). (y, x) \<in> set ps') ps
                       \<and> list_all (\<lambda>(y, x). (x, y) \<in> set ps) ps') ci)
       (constraints csp)"

text \<open>
  \<open>pair_ok\<close>: if both variables are down to one value, the pair of values is permitted.
  \<open>arcs_ok\<close> is the invariant of the AC-3 loop: every stored constraint either holds in
  this sense or has one of its two arcs waiting in the queue.
\<close>

definition pair_ok :: "'a assignment \<Rightarrow> name \<Rightarrow> name \<Rightarrow> ('a \<times> 'a) list \<Rightarrow> bool" where
  "pair_ok a i j ps \<longleftrightarrow>
     (\<forall>x y. map_of a i = Some [x] \<longrightarrow> map_of a j = Some [y] \<longrightarrow> (x, y) \<in> set ps)"

definition arcs_ok :: "'a CSP \<Rightarrow> 'a assignment \<Rightarrow> arc list \<Rightarrow> bool" where
  "arcs_ok csp a q \<longleftrightarrow>
     (\<forall>i j ps. constraint csp i j = Inr ps \<longrightarrow>
        pair_ok a i j ps \<or> (i, j) \<in> set q \<or> (j, i) \<in> set q)"

text \<open>
  What a call of \<^verbatim>\<open>backtrack\<close> (or of its loop over the values of \<open>var\<close>) guarantees of its
  result: the constraints of the CSP object are untouched; a domain that was empty on entry
  is empty in the returned assignment; and if the constraints are two-way and hold on entry,
  they hold of the returned assignment.
\<close>

definition search_ok :: "'a CSP \<Rightarrow> 'a assignment \<Rightarrow> name set \<Rightarrow>
    'a assignment option \<times> 'a CSP \<Rightarrow> bool" where
  "search_ok csp a skip res \<longleftrightarrow>
     constraints (snd res) = constraints csp \<and>
     (\<forall>s. fst res = Some s \<longrightarrow>
        (\<forall>k. k \<notin> skip \<longrightarrow> map_of a k = Some [] \<longrightarrow> map_of s k = Some []) \<and>
        (symmetric_constraints csp \<longrightarrow> arcs_ok csp a [] \<longrightarrow> arcs_ok csp s []))"

text \<open>
  Variables \<open>A\<close> with domain \<open>[1, 2, 3]\<close> and \<open>B\<close> with domain \<open>[3]\<close>, constrained to be
  equal in both directions. It is what \<^verbatim>\<open>add_variable\<close> and two calls of
  \<^verbatim>\<open>add_constraint_one_way\<close> with \<^verbatim>\<open>lambda x, y: x == y\<close> build.
\<close>

definition equal_csp :: "int CSP" where
  "equal_csp =
     \<lparr>variables = [PStr ''A'', PStr ''B''],
      domains = [(PStr ''A'', [1, 2, 3]), (PStr ''B'', [3])],
      constraints = [(PStr ''A'', [(PStr ''B'', [(3, 3)])]),
                     (PStr ''B'', [(PStr ''A'', [(3, 3)])])],
      b_counter = 0, f_counter = 0\<rparr>"

text \<open>Two variables with the domain \<open>[1, 2]\<close> each and no constraint yet.\<close>

definition two_by_two :: "int CSP" where
  "two_by_two = add_variable (add_variable CSP_init (PStr ''A'') [1, 2]) (PStr ''B'') [1, 2]"

text \<open>
  A caller's loop over pairs of variables,
  \<^verbatim>\<open>for (i, j) in pairs: csp.add_constraint_one_way(i, j, filter_function)\<close>, as
  \<^verbatim>\<open>add_all_different_constraint\<close> runs it; the first call that raises ends it.
\<close>

fun add_constraints ::
  "'a CSP \<Rightarrow> (name \<times> name) list \<Rightarrow> ('a \<Rightarrow> 'a \<Rightarrow> bool) \<Rightarrow> error + 'a CSP" where
  "add_constraints csp [] filter_function = Inr csp"
| "add_constraints csp ((i, j) # rest) filter_function =
     (case add_constraint_one_way csp i j filter_function of
        Inl e \<Rightarrow> Inl e
      | Inr csp' \<Rightarrow> add_constraints csp' rest filter_function)"

text \<open>
  Two calls in a row for the same ordered pair:
  \<^verbatim>\<open>csp.add_constraint_one_way(i, j, p); csp.add_constraint_one_way(i, j, q)\<close>.
\<close>

definition add_constraint_twice ::
  "'a CSP \<Rightarrow> name \<Rightarrow> name \<Rightarrow> ('a \<Rightarrow> 'a \<Rightarrow> bool) \<Rightarrow> ('a \<Rightarrow> 'a \<Rightarrow> bool) \<Rightarrow> error + 'a CSP" where
  "add_constraint_twice csp i j p q =
     (case add_constraint_one_way csp i j p of
        Inl e \<Rightarrow> Inl e
      | Inr csp1 \<Rightarrow> add_constraint_one_way csp1 i j q)"

text \<open>
  Four variables, \<open>A\<close> and \<open>C\<close> with the domain \<open>[1]\<close>, \<open>B\<close> and \<open>D\<close> with the domain
  \<open>[2]\<close>, every two of them constrained to be equal, in both directions. It is what four
  calls of \<^verbatim>\<open>add_variable\<close> and \<^verbatim>\<open>add_constraint_one_way(i, j, lambda x, y: x == y)\<close> for
  every ordered pair of distinct variables build. It has no solution.
\<close>

definition four_csp :: "int CSP" where
  "four_csp =
     \<lparr>variables = [PStr ''A'', PStr ''B'', PStr ''C'', PStr ''D''],
      domains = [(PStr ''A'', [1]), (PStr ''B'', [2]), (PStr ''C'', [1]), (PStr ''D'', [2])],
      constraints =
        [(PStr ''A'', [(PStr ''B'', []), (PStr ''C'', [(1, 1)]), (PStr ''D'', [])]),
         (PStr ''B'', [(PStr ''A'', []), (PStr ''C'', []), (PStr ''D'', [(2, 2)])]),
         (PStr ''C'', [(PStr ''A'', [(1, 1)]), (PStr ''B'', []), (PStr ''D'', [])]),
         (PStr ''D'', [(PStr ''A'', []), (PStr ''B'', [(2, 2)]), (PStr ''C'', [])])],
      b_counter = 0, f_counter = 0\<rparr>"

section \<open>Termination of the loops; facts about the model\<close>

lemma total_size_update:
  "map_of a i = Some d \<Longrightarrow> total_size (AList.update i d' a) + length d = total_size a + length d'"
  by (induction a) (auto simp: total_size_def)

lemma subseq_remove1_self: "subseq (remove1 x xs) xs"
  by (induction xs) auto

lemma revise_loop_result:
  "revise_loop csp i j a idx r = Inr (a', r') \<Longrightarrow>
   \<exists>d d'. map_of a i = Some d \<and> subseq d' d \<and> a' = AList.update i d' a \<and>
          (r' \<longleftrightarrow> r \<or> length d' < length d)"
proof (induction csp i j a idx r rule: revise_loop.induct)
  case (1 csp i j a idx r)
  from "1.prems" obtain di where di: "map_of a i = Some di"
    by (subst (asm) revise_loop.simps) (auto split: option.splits)
  show ?case
  proof (cases "idx < length di")
    case False
    with di "1.prems" have "a' = a" "r' = r"
      by (subst (asm) revise_loop.simps, simp)+
    with di show ?thesis
      by (auto simp: update_triv intro!: exI[of _ di])
  next
    case True
    from "1.prems" di True obtain dj where dj: "getitem a j = Inr dj"
      by (subst (asm) revise_loop.simps) (auto split: sum.splits)
    from "1.prems" di True dj obtain sat where sat: "satisfiable csp i j (di ! idx) dj = Inr sat"
      by (subst (asm) revise_loop.simps) (auto split: sum.splits)
    show ?thesis
    proof (cases sat)
      case True
      with "1.prems" di \<open>idx < length di\<close> dj sat
      have "revise_loop csp i j a (idx + 1) r = Inr (a', r')"
        by (subst (asm) revise_loop.simps) simp
      from "1.IH"(2)[OF di \<open>idx < length di\<close> dj sat _ this] True show ?thesis by simp
    next
      case False
      let ?a1 = "AList.update i (remove1 (di ! idx) di) a"
      from False "1.prems" di \<open>idx < length di\<close> dj sat
      have "revise_loop csp i j ?a1 (idx + 1) True = Inr (a', r')"
        by (subst (asm) revise_loop.simps) simp
      from "1.IH"(1)[OF di \<open>idx < length di\<close> dj sat _ this] False
      obtain d' where d': "subseq d' (remove1 (di ! idx) di)" "a' = AList.update i d' ?a1" "r'"
        by (auto simp: update_conv')
      have s: "subseq d' di"
        by (rule subseq_order.order_trans[OF d'(1) subseq_remove1_self])
      have "length d' \<le> length (remove1 (di ! idx) di)"
        by (rule list_emb_length[OF d'(1)])
      also have "\<dots> < length di"
        using \<open>idx < length di\<close> by (simp add: length_remove1)
      finally have l: "length d' < length di" .
      have "a' = AList.update i d' a" using d'(2) by simp
      with s l di d'(3) show ?thesis by blast
    qed
  qed
qed

lemma revise_result:
  assumes "revise csp a i j = Inr (a', r)"
  shows "\<exists>d d'. map_of a i = Some d \<and> subseq d' d \<and> a' = AList.update i d' a \<and>
          (r \<longleftrightarrow> length d' < length d)"
  using revise_loop_result[of csp i j a 0 False a' r] assms by (simp add: revise_def)

lemma revise_unchanged:
  assumes "revise csp a i j = Inr (a', False)"
  shows "a' = a"
proof -
  from revise_result[OF assms] obtain d d' where
    h: "map_of a i = Some d" "subseq d' d" "a' = AList.update i d' a" "\<not> length d' < length d"
    by blast
  from h(2,4) have "length d' = length d"
    using list_emb_length[OF h(2)] by simp
  with h(2) have "d' = d" by (rule subseq_same_length)
  with h(1,3) show ?thesis by (simp add: update_triv)
qed

lemma revise_total_size:
  assumes "revise csp a i j = Inr (a', True)"
  shows "total_size a' < total_size a"
proof -
  from revise_result[OF assms] obtain d d' where
    h: "map_of a i = Some d" "a' = AList.update i d' a" "length d' < length d"
    by blast
  from total_size_update[OF h(1), of d'] h(2,3) show ?thesis by simp
qed

lemma append_neighbors_eq: "append_neighbors queue ns j = queue @ ns"
  by (induction ns arbitrary: queue) (simp_all add: tuple_eq_name_def)

lemma inference_step_decreases:
  assumes "inference_step csp a arc queue = Inr (a', Some queue')"
  shows "total_size a' < total_size a \<or> (a' = a \<and> queue' = queue)"
proof -
  obtain a1 r where r: "revise csp a (fst arc) (snd arc) = Inr (a1, r)"
    using assms by (auto simp: inference_step_def split: sum.splits)
  show ?thesis
  proof (cases r)
    case True
    with assms r have e: "a' = a1"
      by (auto simp: inference_step_def split: sum.splits if_splits)
    from True r have "revise csp a (fst arc) (snd arc) = Inr (a1, True)" by simp
    then have "total_size a1 < total_size a" by (rule revise_total_size)
    with e show ?thesis by simp
  next
    case False
    with assms r have e: "a' = a1" "queue' = queue"
      by (auto simp: inference_step_def)
    from False r have "revise csp a (fst arc) (snd arc) = Inr (a1, False)" by simp
    then have "a1 = a" by (rule revise_unchanged)
    with e show ?thesis by simp
  qed
qed

termination inference
proof (relation "measures [\<lambda>(csp, a, q). total_size a, \<lambda>(csp, a, q). length q]")
  show "wf (measures [\<lambda>(csp, a, q). total_size a, \<lambda>(csp, a, q). length q])"
    by simp
next
  fix csp :: "'a CSP" and assignment :: "'a assignment" and a :: arc and queue :: "arc list"
    and x2 :: "'a assignment \<times> arc list option" and assignment' :: "'a assignment"
    and y :: "arc list option" and queue' :: "arc list"
  assume "inference_step csp assignment a queue = Inr x2" "(assignment', y) = x2" "y = Some queue'"
  then have "inference_step csp assignment a queue = Inr (assignment', Some queue')"
    by simp
  from inference_step_decreases[OF this]
  show "((csp, assignment', queue'), (csp, assignment, a # queue))
        \<in> measures [\<lambda>(csp, a, q). total_size a, \<lambda>(csp, a, q). length q]"
    by auto
qed

lemma narrows_refl: "narrows a a"
  by (simp add: narrows_def list_all2_refl split_beta)

lemma narrows_trans:
  assumes "narrows a b" "narrows b c"
  shows "narrows a c"
  unfolding narrows_def
  by (rule list_all2_trans[OF _ assms[unfolded narrows_def]])
     (auto intro: subseq_order.order_trans)

lemma narrows_update:
  "map_of a i = Some d \<Longrightarrow> subseq d' d \<Longrightarrow> narrows (AList.update i d' a) a"
  by (induction a) (auto simp: narrows_def list_all2_refl split_beta)

lemma narrows_keys: "narrows a' a \<Longrightarrow> map fst a' = map fst a"
  unfolding narrows_def by (induction a' a rule: list_all2_induct) auto

lemma narrows_map_of:
  "narrows a' a \<Longrightarrow> map_of a' k = Some d' \<Longrightarrow> \<exists>d. map_of a k = Some d \<and> subseq d' d"
  unfolding narrows_def by (induction a' a rule: list_all2_induct) (auto split: if_splits)

lemma finite_unassigned_set: "finite (unassigned_set a)"
proof (rule finite_subset)
  show "unassigned_set a \<subseteq> dom (map_of a)" by (auto simp: unassigned_set_def)
  show "finite (dom (map_of a))" by (rule finite_dom_map_of)
qed

lemma unassigned_card: "unassigned a = card (unassigned_set a)"
proof -
  let ?xs = "filter (\<lambda>(k, d). 1 < length d) (AList.clearjunk a)"
  have d: "distinct (map fst ?xs)"
    by (rule distinct_map_filter) (rule distinct_clearjunk)
  have "set (map fst ?xs) = unassigned_set a"
  proof -
    have "\<And>k v. (k, v) \<in> set (AList.clearjunk a) \<longleftrightarrow> map_of a k = Some v"
      using map_of_eq_Some_iff[OF distinct_clearjunk, of a] by (simp add: map_of_clearjunk)
    then show ?thesis by (force simp: unassigned_set_def)
  qed
  then have "card (unassigned_set a) = length (map fst ?xs)"
    using distinct_card[OF d] by simp
  then show ?thesis by (simp add: unassigned_def iteritems_def)
qed

lemma unassigned_set_update_short:
  "length d' \<le> 1 \<Longrightarrow> unassigned_set (AList.update var d' a) = unassigned_set a - {var}"
  by (auto simp: unassigned_set_def update_conv')

lemma narrows_unassigned_set: "narrows a' a \<Longrightarrow> unassigned_set a' \<subseteq> unassigned_set a"
  unfolding unassigned_set_def
  by (auto dest!: narrows_map_of dest: list_emb_length)

lemma narrows_unassigned: "narrows a' a \<Longrightarrow> unassigned a' \<le> unassigned a"
  by (simp add: unassigned_card card_mono finite_unassigned_set narrows_unassigned_set)

lemma unassigned_update_less:
  assumes "map_of a var = Some d" "1 < length d" "length d' \<le> 1"
  shows "unassigned (AList.update var d' a) < unassigned a"
proof -
  have "var \<in> unassigned_set a" using assms by (simp add: unassigned_set_def)
  then have "card (unassigned_set a - {var}) < card (unassigned_set a)"
    by (rule card_Diff1_less[OF finite_unassigned_set])
  then show ?thesis
    by (simp add: unassigned_card unassigned_set_update_short[OF assms(3)])
qed

lemma inference_step_narrows:
  assumes "inference_step csp a arc queue = Inr (a', q)"
  shows "narrows a' a"
proof -
  obtain a1 r where r: "revise csp a (fst arc) (snd arc) = Inr (a1, r)"
    using assms by (auto simp: inference_step_def split: sum.splits)
  with assms have "a' = a1"
    by (auto simp: inference_step_def split: sum.splits if_splits)
  moreover from revise_result[OF r] have "narrows a1 a"
    by (auto intro: narrows_update)
  ultimately show ?thesis by simp
qed

lemma inference_narrows: "inference csp a q = Inr (a', ok) \<Longrightarrow> narrows a' a"
proof (induction csp a q rule: inference.induct)
  case (1 csp assignment)
  then show ?case by (simp add: narrows_refl)
next
  case (2 csp assignment arc queue)
  from "2.prems" obtain a1 q1 where s: "inference_step csp assignment arc queue = Inr (a1, q1)"
    by (auto split: sum.splits)
  have n1: "narrows a1 assignment" by (rule inference_step_narrows[OF s])
  show ?case
  proof (cases q1)
    case None
    with "2.prems" s have "a' = a1" by simp
    with n1 show ?thesis by simp
  next
    case (Some queue')
    with "2.prems" s have "inference csp a1 queue' = Inr (a', ok)" by simp
    from "2.IH"[OF s _ Some this] have "narrows a' a1" by simp
    then show ?thesis using n1 by (rule narrows_trans)
  qed
qed

lemma clearjunk_member: "(k, v) \<in> set (AList.clearjunk a) \<longleftrightarrow> map_of a k = Some v"
  using map_of_eq_Some_iff[OF distinct_clearjunk, of a k v] by (simp add: map_of_clearjunk)

lemma mrv_fold_selected:
  "snd (foldl mrv_step (m, mv) xs) = Some v \<Longrightarrow>
   mv = Some v \<or> (\<exists>d. (v, d) \<in> set xs \<and> 1 < length d)"
proof (induction xs arbitrary: m mv)
  case Nil
  then show ?case by simp
next
  case (Cons p xs)
  obtain key val where p: "p = (key, val)" by (cases p)
  show ?case
  proof (cases "1 < length val \<and> enat (length val) < m")
    case True
    with Cons.prems p have "snd (foldl mrv_step (enat (length val), Some key) xs) = Some v"
      by simp
    from Cons.IH[OF this] True p show ?thesis by auto
  next
    case False
    with Cons.prems p have "snd (foldl mrv_step (m, mv) xs) = Some v"
      by (auto split: if_splits)
    from Cons.IH[OF this] show ?thesis by auto
  qed
qed

lemma mrv_scan_selected:
  "snd (mrv_scan a) = Some v \<Longrightarrow> \<exists>d. map_of a v = Some d \<and> 1 < length d"
  unfolding mrv_scan_def iteritems_def
  by (drule mrv_fold_selected) (auto simp: clearjunk_member)

lemma select_selected:
  "select_minimum_remaining_variable a = Some v \<Longrightarrow>
   truthy v \<and> (\<exists>d. map_of a v = Some d \<and> 1 < length d)"
  unfolding select_minimum_remaining_variable_def
  by (auto split: option.splits if_splits dest: mrv_scan_selected)

lemma unassigned_update_singleton:
  "unassigned (AList.update var [v] a) = unassigned (AList.update var [] a)"
  by (simp add: unassigned_card unassigned_set_update_short)

termination backtrack
  apply (relation "measures [\<lambda>x. case x of Inl (csp, a) \<Rightarrow> unassigned a
                                   | Inr (csp, a, var, vals) \<Rightarrow> unassigned (AList.update var [] a),
                             \<lambda>x. case x of Inl (csp, a) \<Rightarrow> 0 | Inr (csp, a, var, vals) \<Rightarrow> 1,
                             \<lambda>x. case x of Inl (csp, a) \<Rightarrow> 0 | Inr (csp, a, var, vals) \<Rightarrow> length vals]")
      apply simp_all
  subgoal for assignment var vals
    by (auto dest!: select_selected intro: unassigned_update_less)
  subgoal for csp assignment var v queue r new_assignment ok
    using narrows_unassigned[OF inference_narrows, of csp "AList.update var [v] assignment" queue new_assignment True]
    by (auto simp: unassigned_update_singleton)
  done

lemma equal_csp_built:
  "(case add_constraint_one_way
           (add_variable (add_variable CSP_init (PStr ''A'') [1, 2, 3]) (PStr ''B'') [3])
           (PStr ''A'') (PStr ''B'') (\<lambda>x y. x = y) of
      Inl e \<Rightarrow> Inl e
    | Inr csp \<Rightarrow> add_constraint_one_way csp (PStr ''B'') (PStr ''A'') (\<lambda>x y. x = y))
   = Inr equal_csp"
  by code_simp

lemma select_none_if_all_short:
  assumes "\<forall>(k, d)\<in>set assignment. length d \<le> 1"
  shows "select_minimum_remaining_variable assignment = None"
proof (cases "snd (mrv_scan assignment)")
  case None
  then show ?thesis by (simp add: select_minimum_remaining_variable_def)
next
  case (Some v)
  from mrv_scan_selected[OF Some] obtain d where "map_of assignment v = Some d" "1 < length d"
    by blast
  then have "(v, d) \<in> set assignment" by (simp add: map_of_SomeD)
  with assms \<open>1 < length d\<close> show ?thesis by fastforce
qed

lemma mrv_fold_skip:
  "\<forall>(k, e)\<in>set xs. length e \<le> 1 \<or> m \<le> enat (length e) \<Longrightarrow>
   foldl mrv_step (m, mv) xs = (m, mv)"
  by (induction xs) auto

lemma mrv_fold_above:
  "\<forall>(k, e)\<in>set xs. length e \<le> 1 \<or> n < length e \<Longrightarrow> enat n < m \<Longrightarrow>
   enat n < fst (foldl mrv_step (m, mv) xs)"
proof (induction xs arbitrary: m mv)
  case Nil
  then show ?case by simp
next
  case (Cons p xs)
  obtain k e where p: "p = (k, e)" by (cases p)
  show ?case
  proof (cases "1 < length e \<and> enat (length e) < m")
    case True
    with Cons.prems p have "n < length e" by auto
    then have "enat n < enat (length e)" by simp
    with Cons.IH[of "enat (length e)" "Some k"] Cons.prems(1) True p show ?thesis by simp
  next
    case False
    with Cons.IH[of m mv] Cons.prems p show ?thesis by auto
  qed
qed

lemma mrv_scan_first_minimum:
  assumes "iteritems assignment = pre @ (var, d) # post"
    and "1 < length d"
    and "\<forall>(k, e)\<in>set pre. length e \<le> 1 \<or> length d < length e"
    and "\<forall>(k, e)\<in>set post. length e \<le> 1 \<or> length d \<le> length e"
  shows "mrv_scan assignment = (enat (length d), Some var)"
proof -
  obtain m1 mv1 where s1: "foldl mrv_step (\<infinity>, None) pre = (m1, mv1)"
    by (cases "foldl mrv_step (\<infinity>, None) pre")
  from mrv_fold_above[OF assms(3), of \<infinity> None] s1 have "enat (length d) < m1" by simp
  with assms(2) have s2: "mrv_step (m1, mv1) (var, d) = (enat (length d), Some var)" by simp
  from assms(4) have "\<forall>(k, e)\<in>set post. length e \<le> 1 \<or> enat (length d) \<le> enat (length e)"
    by auto
  from mrv_fold_skip[OF this] s1 s2 show ?thesis
    by (simp add: mrv_scan_def assms(1))
qed

lemma keys_member: "j \<in> set (keys d) \<longleftrightarrow> map_of d j \<noteq> None"
  by (simp add: keys_def iteritems_def dom_clearjunk map_of_eq_None_iff)

lemma getitem_update_same: "getitem (AList.update k v d) k = Inr v"
  by (simp add: getitem_def update_conv')

lemma add_constraint_one_way_fresh:
  assumes "getitem (constraints csp) i = Inr ci" "j \<notin> set (keys ci)"
    "getitem (domains csp) i = Inr di" "getitem (domains csp) j = Inr dj"
  shows "\<exists>csp1. add_constraint_one_way csp i j p = Inr csp1
           \<and> domains csp1 = domains csp
           \<and> constraint csp1 i j = Inr (filter (\<lambda>(x, y). p x y) (List.product di dj))"
  using assms
  by (simp add: add_constraint_one_way_def constraint_def getitem_update_same
      get_all_possible_pairs_def case_prod_unfold)

lemma add_constraint_one_way_stored:
  assumes "constraint csp i j = Inr stored"
  shows "\<exists>csp2. add_constraint_one_way csp i j q = Inr csp2
           \<and> domains csp2 = domains csp
           \<and> constraint csp2 i j = Inr (filter (\<lambda>(x, y). q x y) stored)"
proof -
  from assms obtain ci where ci: "getitem (constraints csp) i = Inr ci" "getitem ci j = Inr stored"
    by (auto simp: constraint_def split: sum.splits)
  from ci(2) have "j \<in> set (keys ci)"
    by (auto simp: keys_member getitem_def split: option.splits)
  with ci show ?thesis
    by (simp add: add_constraint_one_way_def constraint_def getitem_update_same case_prod_unfold)
qed

lemma revise_narrows: "revise csp a i j = Inr (a', r) \<Longrightarrow> narrows a' a"
  by (auto dest!: revise_result intro: narrows_update)

lemma run_call_narrows: "run_call csp a c = Inr a' \<Longrightarrow> narrows a' a"
  by (cases c) (auto split: sum.splits dest: revise_narrows inference_narrows)

lemma run_calls_narrows:
  "run_calls csp a cs = Inr trace \<Longrightarrow> n < length trace \<Longrightarrow> narrows (trace ! n) ((a # trace) ! n)"
proof (induction cs arbitrary: a trace n)
  case Nil
  then show ?case by simp
next
  case (Cons c cs)
  from Cons.prems(1) obtain a1 rest where
    h: "run_call csp a c = Inr a1" "run_calls csp a1 cs = Inr rest" "trace = a1 # rest"
    by (auto split: sum.splits)
  show ?case
  proof (cases n)
    case 0
    with h show ?thesis by (simp add: run_call_narrows)
  next
    case (Suc m)
    with Cons.prems(2) h(3) have "m < length rest" by simp
    from Cons.IH[OF h(2) this] Suc h(3) show ?thesis by simp
  qed
qed

lemma subseq_set_subset: "subseq xs ys \<Longrightarrow> set xs \<subseteq> set ys"
  by (auto dest: list_emb_set)

lemma recursive_call_decreases:
  assumes "recursive_call assignment new_assignment"
  shows "unassigned new_assignment < unassigned assignment"
proof -
  from assms obtain csp :: "'a CSP" and var v queue where
    s: "select_minimum_remaining_variable assignment = Some var"
    and i: "inference csp (AList.update var [v] assignment) queue = Inr (new_assignment, True)"
    unfolding recursive_call_def by blast
  from select_selected[OF s] obtain d where d: "map_of assignment var = Some d" "1 < length d"
    by blast
  have "unassigned new_assignment \<le> unassigned (AList.update var [v] assignment)"
    by (rule narrows_unassigned[OF inference_narrows[OF i]])
  also have "\<dots> < unassigned assignment"
    by (rule unassigned_update_less[OF d]) simp
  finally show ?thesis .
qed

lemma recursive_call_wf:
  "wf {(new_assignment :: 'a assignment, assignment). recursive_call assignment new_assignment}"
proof (rule wf_subset[OF wf_measure])
  show "{(new_assignment :: 'a assignment, assignment). recursive_call assignment new_assignment}
          \<subseteq> measure unassigned"
    by (auto dest: recursive_call_decreases)
qed

lemma symmetric_constraintsD:
  assumes "symmetric_constraints csp" "constraint csp i j = Inr ps"
  shows "\<exists>ps'. constraint csp j i = Inr ps' \<and> (\<forall>x y. (x, y) \<in> set ps \<longleftrightarrow> (y, x) \<in> set ps')"
proof -
  from assms(2) obtain ci where "map_of (constraints csp) i = Some ci" "map_of ci j = Some ps"
    by (auto simp: constraint_def getitem_def split: option.splits)
  then have m: "(i, ci) \<in> set (constraints csp)" "(j, ps) \<in> set ci"
    by (simp_all add: map_of_SomeD)
  from assms(1) m(1) have "list_all (\<lambda>(j, ps).
         case constraint csp j i of
           Inl e \<Rightarrow> False
         | Inr ps' \<Rightarrow> list_all (\<lambda>(x, y). (y, x) \<in> set ps') ps
                       \<and> list_all (\<lambda>(y, x). (x, y) \<in> set ps) ps') ci"
    unfolding symmetric_constraints_def list_all_iff by fastforce
  with m(2) obtain ps' where p: "constraint csp j i = Inr ps'"
      "list_all (\<lambda>(x, y). (y, x) \<in> set ps') ps" "list_all (\<lambda>(y, x). (x, y) \<in> set ps) ps'"
    unfolding list_all_iff by (fastforce split: sum.splits)
  from p(2,3) have "\<forall>x y. (x, y) \<in> set ps \<longleftrightarrow> (y, x) \<in> set ps'"
    unfolding list_all_iff by fastforce
  with p(1) show ?thesis by blast
qed

lemma pair_ok_mirror:
  "\<forall>x y. (x, y) \<in> set ps \<longleftrightarrow> (y, x) \<in> set ps' \<Longrightarrow> pair_ok a j i ps' \<Longrightarrow> pair_ok a i j ps"
  by (auto simp: pair_ok_def)

lemma constraint_neighbor:
  "constraint csp i n = Inr ps \<Longrightarrow> getitem (constraints csp) i = Inr ci \<Longrightarrow> n \<in> set (keys ci)"
  by (auto simp: constraint_def keys_member getitem_def split: option.splits)

lemma arcs_ok_after_change:
  assumes sym: "symmetric_constraints csp"
    and ci: "getitem (constraints csp) i = Inr ci"
    and others: "\<And>m n ps. constraint csp m n = Inr ps \<Longrightarrow> m \<noteq> i \<Longrightarrow> n \<noteq> i \<Longrightarrow>
                   pair_ok a m n ps \<or> (m, n) \<in> set q \<or> (n, m) \<in> set q"
    and same: "\<And>k. k \<noteq> i \<Longrightarrow> map_of a' k = map_of a k"
  shows "arcs_ok csp a' (q @ map (\<lambda>k. (k, i)) (keys ci))"
  unfolding arcs_ok_def
proof (intro allI impI)
  fix m n ps
  assume c: "constraint csp m n = Inr ps"
  let ?q' = "q @ map (\<lambda>k. (k, i)) (keys ci)"
  show "pair_ok a' m n ps \<or> (m, n) \<in> set ?q' \<or> (n, m) \<in> set ?q'"
  proof (cases "m = i")
    case True
    with c ci have "n \<in> set (keys ci)" by (simp add: constraint_neighbor)
    with True show ?thesis by simp
  next
    case mi: False
    show ?thesis
    proof (cases "n = i")
      case True
      from symmetric_constraintsD[OF sym c] obtain ps' where "constraint csp n m = Inr ps'"
        by blast
      with True ci have "m \<in> set (keys ci)" by (simp add: constraint_neighbor)
      with True show ?thesis by simp
    next
      case False
      from same[OF mi] same[OF False] have "pair_ok a' m n ps = pair_ok a m n ps"
        by (simp add: pair_ok_def)
      with others[OF c mi False] show ?thesis by auto
    qed
  qed
qed

lemma revise_checks_pair:
  assumes r: "revise csp a i j = Inr (a', False)"
    and c: "constraint csp i j = Inr ps"
  shows "pair_ok a i j ps"
  unfolding pair_ok_def
proof (intro allI impI)
  fix x y
  assume i: "map_of a i = Some [x]" and j: "map_of a j = Some [y]"
  show "(x, y) \<in> set ps"
  proof (rule ccontr)
    assume n: "(x, y) \<notin> set ps"
    from r i j c n
    have "revise_loop csp i j (AList.update i (remove1 x [x]) a) 1 True = Inr (a', False)"
      unfolding revise_def
      by (subst (asm) revise_loop.simps) (simp add: getitem_def)
    from revise_loop_result[OF this] show False by simp
  qed
qed

lemma inference_step_arcs_ok:
  assumes sym: "symmetric_constraints csp"
    and ok: "arcs_ok csp a ((i, j) # q)"
    and step: "inference_step csp a (i, j) q = Inr (a', Some q')"
  shows "arcs_ok csp a' q'"
proof -
  obtain a1 r where r: "revise csp a i j = Inr (a1, r)"
    using step by (auto simp: inference_step_def split: sum.splits)
  show ?thesis
  proof (cases r)
    case False
    with r have r': "revise csp a i j = Inr (a1, False)" by simp
    then have "a1 = a" by (rule revise_unchanged)
    with step r False have e: "a' = a" "q' = q" by (auto simp: inference_step_def)
    have "arcs_ok csp a q"
      unfolding arcs_ok_def
    proof (intro allI impI)
      fix m n ps
      assume c: "constraint csp m n = Inr ps"
      from ok c have d: "pair_ok a m n ps \<or> (m, n) \<in> set ((i, j) # q) \<or> (n, m) \<in> set ((i, j) # q)"
        unfolding arcs_ok_def by blast
      show "pair_ok a m n ps \<or> (m, n) \<in> set q \<or> (n, m) \<in> set q"
      proof (cases "(m, n) = (i, j)")
        case True
        with revise_checks_pair[OF r'] c show ?thesis by auto
      next
        case nf: False
        show ?thesis
        proof (cases "(n, m) = (i, j)")
          case True
          from symmetric_constraintsD[OF sym c] obtain ps' where
            p: "constraint csp n m = Inr ps'" "\<forall>x y. (x, y) \<in> set ps \<longleftrightarrow> (y, x) \<in> set ps'"
            by blast
          from True p(1) revise_checks_pair[OF r'] have "pair_ok a n m ps'" by auto
          from pair_ok_mirror[OF p(2) this] show ?thesis by simp
        next
          case False
          with nf d show ?thesis by auto
        qed
      qed
    qed
    with e show ?thesis by simp
  next
    case True
    with step r obtain ci where
      ci: "getitem (constraints csp) i = Inr ci"
      and e: "a' = a1" "q' = q @ map (\<lambda>k. (k, i)) (keys ci)"
      by (auto simp: inference_step_def get_all_neighboring_arcs_def append_neighbors_eq
          split: sum.splits if_splits)
    from revise_result[OF r] obtain d' where "a1 = AList.update i d' a" by blast
    then have same: "\<And>k. k \<noteq> i \<Longrightarrow> map_of a1 k = map_of a k"
      by (simp add: update_conv')
    have "arcs_ok csp a1 (q @ map (\<lambda>k. (k, i)) (keys ci))"
    proof (rule arcs_ok_after_change[OF sym ci _ same])
      fix m n ps
      assume "constraint csp m n = Inr ps" "m \<noteq> i" "n \<noteq> i"
      with ok show "pair_ok a m n ps \<or> (m, n) \<in> set q \<or> (n, m) \<in> set q"
        unfolding arcs_ok_def by fastforce
    qed
    with e show ?thesis by simp
  qed
qed

lemma inference_arcs_ok:
  "symmetric_constraints csp \<Longrightarrow> arcs_ok csp a q \<Longrightarrow> inference csp a q = Inr (a', True) \<Longrightarrow>
   arcs_ok csp a' []"
proof (induction csp a q rule: inference.induct)
  case (1 csp assignment)
  then show ?case by simp
next
  case (2 csp assignment arc queue)
  obtain i j where arc: "arc = (i, j)" by (cases arc)
  from "2.prems"(3) obtain a1 q1 where
    s: "inference_step csp assignment arc queue = Inr (a1, Some q1)"
    and r: "inference csp a1 q1 = Inr (a', True)"
    by (auto split: sum.splits option.splits)
  from inference_step_arcs_ok[OF "2.prems"(1)] "2.prems"(2) s arc
  have "arcs_ok csp a1 q1" by blast
  from "2.IH"[OF s _ _ "2.prems"(1) this r] show ?case by simp
qed

lemma inference_false_empty:
  "inference csp a q = Inr (a', False) \<Longrightarrow> \<exists>k. map_of a' k = Some []"
proof (induction csp a q rule: inference.induct)
  case (1 csp assignment)
  then show ?case by simp
next
  case (2 csp assignment arc queue)
  from "2.prems" obtain a1 q1 where s: "inference_step csp assignment arc queue = Inr (a1, q1)"
    by (auto split: sum.splits)
  show ?case
  proof (cases q1)
    case None
    with "2.prems" s have e: "a' = a1" by simp
    from s None have "map_of a1 (fst arc) = Some []"
      by (auto simp: inference_step_def getitem_def split: sum.splits if_splits option.splits)
    with e show ?thesis by blast
  next
    case (Some queue')
    with "2.prems" s have "inference csp a1 queue' = Inr (a', False)" by simp
    from "2.IH"[OF s _ Some this] show ?thesis by simp
  qed
qed

lemma narrows_map_of_rev:
  "narrows a' a \<Longrightarrow> map_of a k = Some d \<Longrightarrow> \<exists>d'. map_of a' k = Some d' \<and> subseq d' d"
  unfolding narrows_def by (induction a' a rule: list_all2_induct) (auto split: if_splits)

lemma narrows_keeps_empty: "narrows a' a \<Longrightarrow> map_of a k = Some [] \<Longrightarrow> map_of a' k = Some []"
  by (auto dest: narrows_map_of_rev)

lemma constraint_counters [simp]:
  "constraint (csp\<lparr>b_counter := n\<rparr>) = constraint csp"
  "constraint (csp\<lparr>f_counter := n\<rparr>) = constraint csp"
  by (simp_all add: constraint_def fun_eq_iff)

lemma arcs_ok_cong: "constraints c = constraints c' \<Longrightarrow> arcs_ok c = arcs_ok c'"
  by (simp add: arcs_ok_def constraint_def fun_eq_iff)

lemma symmetric_constraints_cong:
  "constraints c = constraints c' \<Longrightarrow> symmetric_constraints c = symmetric_constraints c'"
  by (simp add: symmetric_constraints_def constraint_def)

lemma neighbors_cong:
  "constraints c = constraints c' \<Longrightarrow> get_all_neighboring_arcs c = get_all_neighboring_arcs c'"
  by (simp add: get_all_neighboring_arcs_def fun_eq_iff)

lemma backtrack_search_ok:
  "(\<forall>res. backtrack csp a = Inr res \<longrightarrow> search_ok csp a {} res)"
  "(\<forall>res. backtrack_values csp a var vals = Inr res \<longrightarrow> search_ok csp a {var} res)"
proof (induction csp a and csp a var vals rule: backtrack_backtrack_values.induct)
  case (1 csp assignment)
  show ?case
  proof (intro allI impI)
    fix res
    assume b: "backtrack csp assignment = Inr res"
    let ?csp1 = "csp\<lparr>b_counter := b_counter csp + 1\<rparr>"
    have c1: "constraints ?csp1 = constraints csp" by simp
    show "search_ok csp assignment {} res"
    proof (cases "select_minimum_remaining_variable assignment")
      case None
      with b show ?thesis by (auto simp: search_ok_def)
    next
      case (Some var)
      with b obtain vals where g: "getitem assignment var = Inr vals"
        and bv: "backtrack_values ?csp1 assignment var vals = Inr res"
        by (auto split: sum.splits)
      from "1.IH"[OF Some g] bv have so: "search_ok ?csp1 assignment {var} res" by blast
      from select_selected[OF Some] have ne: "map_of assignment var \<noteq> Some []" by auto
      from so ne show ?thesis
        unfolding search_ok_def
        using arcs_ok_cong[OF c1] symmetric_constraints_cong[OF c1] by auto
    qed
  qed
next
  case (2 csp assignment var)
  show ?case by (simp add: search_ok_def)
next
  case (3 csp assignment var v rest)
  show ?case
  proof (intro allI impI)
    fix res
    assume b: "backtrack_values csp assignment var (v # rest) = Inr res"
    from b obtain queue where q: "get_all_neighboring_arcs csp var = Inr queue"
      by (auto split: sum.splits)
    from b q obtain new ok where
      i: "inference csp (AList.update var [v] assignment) queue = Inr (new, ok)"
      by (auto split: sum.splits)
    show "search_ok csp assignment {var} res"
    proof (cases ok)
      case False
      with b q i have "backtrack_values csp assignment var rest = Inr res" by simp
      with "3.IH"(3)[OF q i _ _] False show ?thesis by simp
    next
      case True
      with b q i obtain result csp' where bt: "backtrack csp new = Inr (result, csp')"
        by (auto split: sum.splits)
      from "3.IH"(1)[OF q i _ True] bt have so: "search_ok csp new {} (result, csp')"
        by simp
      then have cc: "constraints csp' = constraints csp" by (simp add: search_ok_def)
      show ?thesis
      proof (cases "truthy_result result")
        case False
        with b q i True bt have "backtrack_values csp' assignment var rest = Inr res" by simp
        with "3.IH"(2)[OF q i _ True bt _ False]
        have "search_ok csp' assignment {var} res" by simp
        then show ?thesis
          unfolding search_ok_def
          using arcs_ok_cong[OF cc] symmetric_constraints_cong[OF cc] cc by auto
      next
        case tr: True
        with b q i True bt have res: "res = (result, csp')" by simp
        have n: "narrows new (AList.update var [v] assignment)"
          by (rule inference_narrows[OF i])
        have empties: "\<And>k. k \<noteq> var \<Longrightarrow> map_of assignment k = Some [] \<Longrightarrow> map_of new k = Some []"
          by (rule narrows_keeps_empty[OF n]) (simp add: update_conv')
        have arcs: "arcs_ok csp new []"
          if sym: "symmetric_constraints csp" and ok: "arcs_ok csp assignment []"
        proof -
          from q obtain cv where cv: "getitem (constraints csp) var = Inr cv"
            and qe: "queue = map (\<lambda>k. (k, var)) (keys cv)"
            by (auto simp: get_all_neighboring_arcs_def split: sum.splits)
          have "arcs_ok csp (AList.update var [v] assignment) ([] @ map (\<lambda>k. (k, var)) (keys cv))"
          proof (rule arcs_ok_after_change[OF sym cv])
            fix m n ps
            assume "constraint csp m n = Inr ps"
            with ok show "pair_ok assignment m n ps \<or> (m, n) \<in> set [] \<or> (n, m) \<in> set []"
              unfolding arcs_ok_def by simp
          next
            fix k assume "k \<noteq> var"
            then show "map_of (AList.update var [v] assignment) k = map_of assignment k"
              by (simp add: update_conv')
          qed
          with qe have "arcs_ok csp (AList.update var [v] assignment) queue" by simp
          from inference_arcs_ok[OF sym this] i True show ?thesis by simp
        qed
        from so res empties arcs show ?thesis
          unfolding search_ok_def by auto
      qed
    qed
  qed
qed

lemma get_all_arcs_complete:
  assumes "constraint csp i j = Inr ps"
  shows "(i, j) \<in> set (get_all_arcs csp)"
proof -
  from assms obtain ci where ci: "map_of (constraints csp) i = Some ci" "map_of ci j = Some ps"
    by (auto simp: constraint_def getitem_def split: option.splits)
  from ci(1) have "(i, ci) \<in> set (iteritems (constraints csp))"
    by (simp add: iteritems_def clearjunk_member)
  moreover from ci(2) have "j \<in> set (keys ci)" by (simp add: keys_member)
  ultimately show ?thesis
    unfolding get_all_arcs_def by force
qed

lemma arcs_ok_initial: "arcs_ok csp a (get_all_arcs csp)"
  by (simp add: arcs_ok_def get_all_arcs_complete)

lemma four_csp_built:
  "(let csp = add_variable (add_variable (add_variable (add_variable CSP_init
                (PStr ''A'') [1]) (PStr ''B'') [2]) (PStr ''C'') [1]) (PStr ''D'') [2]
    in add_constraints csp
         (filter (\<lambda>(i, j). i \<noteq> j) (get_all_possible_pairs (variables csp) (variables csp)))
         (\<lambda>x y. x = y))
   = Inr four_csp"
  by code_simp

text \<open>
  What the search does guarantee. If the constraints are two-way and the returned assignment
  has no empty domain, then every stored constraint between two variables with a single
  remaining value each holds of these values.
\<close>

lemma two_way_search_result_satisfies_constraints:
  assumes sym: "symmetric_constraints csp"
    and res: "backtracking_search csp = Inr (Some solution, csp')"
    and nonempty: "\<forall>(k, d)\<in>set solution. d \<noteq> []"
    and c: "constraint csp i j = Inr ps"
    and vi: "map_of solution i = Some [x]"
    and vj: "map_of solution j = Some [y]"
  shows "(x, y) \<in> set ps"
proof -
  from res obtain a1 ok where
    i: "inference csp (domains csp) (get_all_arcs csp) = Inr (a1, ok)"
    and b: "backtrack csp a1 = Inr (Some solution, csp')"
    by (auto simp: backtracking_search_def split: sum.splits)
  from backtrack_search_ok(1)[of csp a1] b
  have so: "search_ok csp a1 {} (Some solution, csp')" by blast
  have ok
  proof (rule ccontr)
    assume "\<not> ok"
    with i have "inference csp (domains csp) (get_all_arcs csp) = Inr (a1, False)" by simp
    from inference_false_empty[OF this] obtain k where "map_of a1 k = Some []" by blast
    with so have "map_of solution k = Some []" by (simp add: search_ok_def)
    then have "(k, []) \<in> set solution" by (rule map_of_SomeD)
    with nonempty show False by auto
  qed
  with i have "inference csp (domains csp) (get_all_arcs csp) = Inr (a1, True)" by simp
  from inference_arcs_ok[OF sym arcs_ok_initial this] have "arcs_ok csp a1 []" .
  with so sym have "arcs_ok csp solution []" by (simp add: search_ok_def)
  with c have "pair_ok solution i j ps" by (simp add: arcs_ok_def)
  with vi vj show ?thesis by (simp add: pair_ok_def)
qed

text \<open>
  The constraints that \<^verbatim>\<open>create_queen_csp\<close> stores are not two-way: \<^verbatim>\<open>queenCollision\<close>
  compares \<open>x0 - y0\<close>, not its absolute value, with \<open>abs (x1 - y1)\<close>, so it sees the
  diagonal between \<open>1,1\<close> and \<open>0,0\<close> in one direction only.
\<close>

lemma queen_constraints_not_two_way:
  "queenCollision ''0,0'' ''1,1'' = Inr False
   \<and> queenCollision ''1,1'' ''0,0'' = Inr True
   \<and> (case create_queen_csp 2 of Inl e \<Rightarrow> False | Inr csp \<Rightarrow> \<not> symmetric_constraints csp)"
  by code_simp

text \<open>
  Two calls of \<^verbatim>\<open>add_constraint_one_way\<close> for the same ordered pair leave the same CSP
  object whichever of the two predicates is given first, and raise the same error if they
  raise.
\<close>

lemma add_constraint_twice_commute:
  "add_constraint_twice csp i j p q = add_constraint_twice csp i j q p"
  unfolding add_constraint_twice_def add_constraint_one_way_def
  by (auto simp: getitem_update_same keys_member update_conv' conj_commute
      split: sum.splits if_splits)

section \<open>Claims\<close>

text \<open>
  C1. The claim: for every CSP on which \<^verbatim>\<open>backtracking_search\<close> returns an assignment and
  every pair \<open>(i, j)\<close> with a stored constraint, the pair of remaining values is permitted.
  On \<open>four_csp\<close>, whose constraints are two-way, the first run of \<^verbatim>\<open>inference\<close> empties the
  domain of \<open>A\<close> and returns \<^verbatim>\<open>False\<close>. \<^verbatim>\<open>backtracking_search\<close> does not look at that
  result (\<^verbatim>\<open>backtrack\<close> tests the result of the same call in its loop) and calls
  \<^verbatim>\<open>backtrack\<close>, which finds no domain with more than one value and returns the
  assignment: \<open>C = 1\<close> and \<open>D = 2\<close>, although \<^verbatim>\<open>constraints[C][D]\<close> permits no pair at all.
\<close>

theorem search_returns_violating_assignment:
  "symmetric_constraints four_csp
   \<and> inference four_csp (domains four_csp) (get_all_arcs four_csp)
       = Inr ([(PStr ''A'', []), (PStr ''B'', [2]), (PStr ''C'', [1]), (PStr ''D'', [2])], False)
   \<and> backtracking_search four_csp
       = Inr (Some [(PStr ''A'', []), (PStr ''B'', [2]), (PStr ''C'', [1]), (PStr ''D'', [2])],
              four_csp\<lparr>b_counter := 1\<rparr>)
   \<and> constraint four_csp (PStr ''C'') (PStr ''D'') = Inr []"
  by code_simp

text \<open>
  C2. The claim: when Revise on a popped arc \<open>(i, j)\<close> reports a change and the domain of
  \<open>i\<close> is not empty, the arcs \<open>(k, i)\<close> of all neighbours \<open>k\<close> of \<open>i\<close> except \<open>(j, i)\<close>
  are appended to the queue, so \<open>(j, i)\<close> is never re-enqueued by this step. On
  \<open>equal_csp\<close>, with the arc \<open>(A, B)\<close> popped from the queue \<open>[(A, B)]\<close>, Revise removes 1
  from the domain of \<open>A\<close> and the queue that the step leaves is \<open>[(B, A)]\<close>: the arc
  \<open>(j, i)\<close> itself has been appended. The test \<^verbatim>\<open>not neighbor == j\<close> compares an arc with a
  variable name and so never excludes anything.
\<close>

theorem inference_step_requeues_reverse_arc:
  "inference_step equal_csp (domains equal_csp) (PStr ''A'', PStr ''B'') []
     = Inr ([(PStr ''A'', [2, 3]), (PStr ''B'', [3])], Some [(PStr ''B'', PStr ''A'')])"
  by code_simp

text \<open>
  C3. The claim: one call of \<^verbatim>\<open>revise(assignment, i, j)\<close> removes all and only the values
  of the domain of \<open>i\<close> that have no support in the domain of \<open>j\<close>. On \<open>equal_csp\<close> the only
  permitted pair of \<open>(A, B)\<close> is \<open>(3, 3)\<close>, so 1 and 2 are both unsupported; the call removes
  1 and leaves 2, which the iteration over the shortened list skips.
\<close>

theorem revise_leaves_unsupported_value:
  "revise equal_csp (domains equal_csp) (PStr ''A'') (PStr ''B'')
     = Inr ([(PStr ''A'', [2, 3]), (PStr ''B'', [3])], True)
   \<and> constraint equal_csp (PStr ''A'') (PStr ''B'') = Inr [(3, 3)]"
  by code_simp

text \<open>
  C4. When no variable's domain holds more than one value, \<^verbatim>\<open>backtrack(assignment)\<close>
  returns that assignment as a success, after counting the call. Nothing checks that the
  domains are non-empty: an assignment with an empty domain is returned in the same way.
\<close>

theorem backtrack_returns_settled_assignment:
  assumes "\<forall>(k, d)\<in>set assignment. length d \<le> 1"
  shows "backtrack csp assignment = Inr (Some assignment, csp\<lparr>b_counter := b_counter csp + 1\<rparr>)"
  by (simp add: select_none_if_all_short[OF assms])

theorem backtrack_returns_settled_assignment_witness:
  "length ([] :: int list) \<le> 1 \<and> length [3 :: int] \<le> 1
   \<and> backtrack equal_csp [(PStr ''A'', []), (PStr ''B'', [3])]
     = Inr (Some [(PStr ''A'', []), (PStr ''B'', [3])], equal_csp\<lparr>b_counter := 1\<rparr>)"
  using backtrack_returns_settled_assignment[of "[(PStr ''A'', []), (PStr ''B'', [3])]" equal_csp]
  by (simp add: equal_csp_def)

text \<open>
  C5. The claim: if \<^verbatim>\<open>inference(assignment, queue)\<close> succeeds, a second run on the resulting
  assignment with an equal queue removes no further value. On \<open>equal_csp\<close> with the queue
  \<open>[(A, B)]\<close> the first run succeeds and leaves \<open>[2, 3]\<close> for \<open>A\<close>; the second run, from that
  assignment and the same queue, removes 2.
\<close>

theorem inference_second_run_removes_value:
  "inference equal_csp (domains equal_csp) [(PStr ''A'', PStr ''B'')]
     = Inr ([(PStr ''A'', [2, 3]), (PStr ''B'', [3])], True)
   \<and> inference equal_csp [(PStr ''A'', [2, 3]), (PStr ''B'', [3])] [(PStr ''A'', PStr ''B'')]
     = Inr ([(PStr ''A'', [3]), (PStr ''B'', [3])], True)"
  by code_simp

text \<open>
  C6. The claim: for \<^verbatim>\<open>create_queen_csp(1)\<close> the search returns the single-queen placement
  with \<^verbatim>\<open>b_counter\<close> equal to 0 after the solve. The placement is returned by the first
  call of \<^verbatim>\<open>backtrack\<close>, which increments \<^verbatim>\<open>b_counter\<close> on entry: the counter is 1.
\<close>

theorem queens_1_counter_is_not_zero:
  "\<not> isl (solve_queens 1) \<and> b_counter (snd (projr (solve_queens 1))) = 1"
  by code_simp

text \<open>
  C6, amended: for \<^verbatim>\<open>create_queen_csp(1)\<close> the search returns the placement of \<open>Q0\<close> on its
  single cell from the first call of \<^verbatim>\<open>backtrack\<close>; after the solve \<^verbatim>\<open>b_counter\<close> is 1
  (every call of \<^verbatim>\<open>backtrack\<close> is counted, the first one included) and \<^verbatim>\<open>f_counter\<close> is 0.
\<close>

theorem queens_1_solved_by_first_call:
  "solve_queens 1 =
     Inr (Some [(PStr ''Q0'', [''0,0''])],
          \<lparr>variables = [PStr ''Q0''], domains = [(PStr ''Q0'', [''0,0''])],
           constraints = [(PStr ''Q0'', [])], b_counter = 1, f_counter = 0\<rparr>)"
  by code_simp

text \<open>
  C7. The claim: \<^verbatim>\<open>add_constraint_one_way(i, j, p)\<close> computes the product of the two
  domains only when no \<open>(i, j)\<close> constraint is stored, and a second call with a predicate
  \<open>q\<close> filters the stored list, so installation order matters. With the domains \<open>[1, 2]\<close>
  for \<open>A\<close> and \<open>B\<close>, installing \<open>x \<le> y\<close> and then \<open>y \<le> x\<close> for \<open>(A, B)\<close> leaves the same
  CSP object as installing \<open>y \<le> x\<close> and then \<open>x \<le> y\<close>: the stored list is \<open>[(1, 1), (2, 2)]\<close>
  in both orders.
\<close>

theorem installation_order_makes_no_difference:
  "add_constraint_twice two_by_two (PStr ''A'') (PStr ''B'') (\<lambda>x y. x \<le> y) (\<lambda>x y. y \<le> x)
     = Inr (two_by_two\<lparr>constraints :=
              [(PStr ''A'', [(PStr ''B'', [(1, 1), (2, 2)])]), (PStr ''B'', [])]\<rparr>)
   \<and> add_constraint_twice two_by_two (PStr ''A'') (PStr ''B'') (\<lambda>x y. y \<le> x) (\<lambda>x y. x \<le> y)
     = Inr (two_by_two\<lparr>constraints :=
              [(PStr ''A'', [(PStr ''B'', [(1, 1), (2, 2)])]), (PStr ''B'', [])]\<rparr>)"
  by code_simp

text \<open>
  C7, amended. When no \<open>(i, j)\<close> constraint is stored, \<^verbatim>\<open>add_constraint_one_way(i, j, p)\<close>
  stores the product of the two domains filtered by \<open>p\<close>. A second call for the same pair
  with a predicate \<open>q\<close> filters the stored list by \<open>q\<close>: the result is the product filtered
  by \<open>p\<close> and then by \<open>q\<close>, not the product filtered by \<open>q\<close>. Installing \<open>q\<close> first and \<open>p\<close>
  second leaves the same CSP object: the order of installation makes no difference.
\<close>

theorem add_constraint_one_way_refilters_stored:
  assumes "getitem (constraints csp) i = Inr ci" "j \<notin> set (keys ci)"
    "getitem (domains csp) i = Inr di" "getitem (domains csp) j = Inr dj"
  shows "\<exists>csp1 csp2 csp1'.
           add_constraint_one_way csp i j p = Inr csp1
         \<and> constraint csp1 i j = Inr (filter (\<lambda>(x, y). p x y) (List.product di dj))
         \<and> add_constraint_one_way csp1 i j q = Inr csp2
         \<and> constraint csp2 i j
             = Inr (filter (\<lambda>(x, y). q x y) (filter (\<lambda>(x, y). p x y) (List.product di dj)))
         \<and> add_constraint_one_way csp i j q = Inr csp1'
         \<and> add_constraint_one_way csp1' i j p = Inr csp2"
proof -
  from add_constraint_one_way_fresh[OF assms, of p] obtain csp1 where
    c1: "add_constraint_one_way csp i j p = Inr csp1"
        "constraint csp1 i j = Inr (filter (\<lambda>(x, y). p x y) (List.product di dj))"
    by blast
  from add_constraint_one_way_stored[OF c1(2), of q] obtain csp2 where
    c2: "add_constraint_one_way csp1 i j q = Inr csp2"
        "constraint csp2 i j
           = Inr (filter (\<lambda>(x, y). q x y) (filter (\<lambda>(x, y). p x y) (List.product di dj)))"
    by blast
  from add_constraint_one_way_fresh[OF assms, of q] obtain csp1' where
    d1: "add_constraint_one_way csp i j q = Inr csp1'"
    by blast
  from c1(1) c2(1) have "add_constraint_twice csp i j p q = Inr csp2"
    by (simp add: add_constraint_twice_def)
  then have "add_constraint_twice csp i j q p = Inr csp2"
    by (simp add: add_constraint_twice_commute)
  with d1 have d2: "add_constraint_one_way csp1' i j p = Inr csp2"
    by (simp add: add_constraint_twice_def)
  from c1 c2 d1 d2 show ?thesis by blast
qed

theorem add_constraint_one_way_refilters_stored_witness:
  "getitem (constraints two_by_two) (PStr ''A'') = Inr []
   \<and> PStr ''B'' \<notin> set (keys ([] :: (name, (int \<times> int) list) dict))
   \<and> getitem (domains two_by_two) (PStr ''A'') = Inr [1, 2]
   \<and> getitem (domains two_by_two) (PStr ''B'') = Inr [1, 2]
   \<and> (\<exists>csp1 csp2 csp1'.
         add_constraint_one_way two_by_two (PStr ''A'') (PStr ''B'') (\<lambda>x y. x \<le> y) = Inr csp1
       \<and> constraint csp1 (PStr ''A'') (PStr ''B'') = Inr [(1, 1), (1, 2), (2, 2)]
       \<and> add_constraint_one_way csp1 (PStr ''A'') (PStr ''B'') (\<lambda>x y. y \<le> x) = Inr csp2
       \<and> constraint csp2 (PStr ''A'') (PStr ''B'') = Inr [(1, 1), (2, 2)]
       \<and> add_constraint_one_way two_by_two (PStr ''A'') (PStr ''B'') (\<lambda>x y. y \<le> x) = Inr csp1'
       \<and> add_constraint_one_way csp1' (PStr ''A'') (PStr ''B'') (\<lambda>x y. x \<le> y) = Inr csp2)
   \<and> filter (\<lambda>(x, y). y \<le> x) (List.product [1, 2 :: int] [1, 2 :: int]) = [(1, 1), (2, 1), (2, 2)]"
proof -
  have h1: "getitem (constraints two_by_two) (PStr ''A'') = Inr []" by code_simp
  have h2: "PStr ''B'' \<notin> set (keys ([] :: (name, (int \<times> int) list) dict))" by code_simp
  have h3: "getitem (domains two_by_two) (PStr ''A'') = Inr [1, 2]" by code_simp
  have h4: "getitem (domains two_by_two) (PStr ''B'') = Inr [1, 2]" by code_simp
  have e1: "filter (\<lambda>(x, y). x \<le> y) (List.product [1, 2 :: int] [1, 2 :: int])
              = [(1, 1), (1, 2), (2, 2)]" by simp
  have e2: "filter (\<lambda>(x, y). y \<le> x) [(1, 1), (1, 2), (2, 2 :: int)] = [(1, 1), (2, 2 :: int)]"
    by simp
  have e3: "filter (\<lambda>(x, y). y \<le> x) (List.product [1, 2 :: int] [1, 2 :: int])
              = [(1, 1), (2, 1), (2, 2)]" by simp
  from add_constraint_one_way_refilters_stored[OF h1 h2 h3 h4,
      of "\<lambda>x y. x \<le> y" "\<lambda>x y. y \<le> x"]
  show ?thesis
    unfolding e1 e2 using h1 h2 h3 h4 e3 by blast
qed

text \<open>
  C8. Across any sequence of \<^verbatim>\<open>inference\<close> and \<^verbatim>\<open>revise\<close> calls on one assignment, the
  assignment after the \<open>n\<close>-th call has the keys of the assignment before it, and the domain
  of every variable after the call is a subsequence of its domain before the call: a subset,
  no longer, and never with a value added. This holds whether \<^verbatim>\<open>inference\<close> returns
  \<^verbatim>\<open>True\<close> or \<^verbatim>\<open>False\<close>.
\<close>

theorem propagation_only_removes_values:
  assumes "run_calls csp assignment calls = Inr trace"
    and "n < length trace"
    and "map_of (trace ! n) k = Some d'"
  shows "map fst (trace ! n) = map fst ((assignment # trace) ! n)
         \<and> (\<exists>d. map_of ((assignment # trace) ! n) k = Some d
                \<and> subseq d' d \<and> set d' \<subseteq> set d \<and> length d' \<le> length d)"
proof -
  have n: "narrows (trace ! n) ((assignment # trace) ! n)"
    by (rule run_calls_narrows[OF assms(1,2)])
  from narrows_map_of[OF n assms(3)] obtain d where
    d: "map_of ((assignment # trace) ! n) k = Some d" "subseq d' d"
    by blast
  from d(2) have "set d' \<subseteq> set d" "length d' \<le> length d"
    by (simp_all add: subseq_set_subset list_emb_length)
  with d narrows_keys[OF n] show ?thesis by blast
qed

theorem propagation_only_removes_values_witness:
  "run_calls equal_csp (domains equal_csp)
       [Revise (PStr ''A'') (PStr ''B''), Inference [(PStr ''A'', PStr ''B'')]]
     = Inr [[(PStr ''A'', [2, 3]), (PStr ''B'', [3])], [(PStr ''A'', [3]), (PStr ''B'', [3])]]
   \<and> (\<exists>d. map_of [(PStr ''A'', [2, 3 :: int]), (PStr ''B'', [3])] (PStr ''A'') = Some d
          \<and> subseq [3] d \<and> set [3] \<subseteq> set d \<and> length [3 :: int] \<le> length d)"
proof -
  have h: "run_calls equal_csp (domains equal_csp)
       [Revise (PStr ''A'') (PStr ''B''), Inference [(PStr ''A'', PStr ''B'')]]
     = Inr [[(PStr ''A'', [2, 3]), (PStr ''B'', [3])], [(PStr ''A'', [3]), (PStr ''B'', [3])]]"
    by code_simp
  from propagation_only_removes_values[OF h, of 1 "PStr ''A''" "[3]"] h show ?thesis
    by simp
qed

text \<open>
  C9. Every recursive call of \<^verbatim>\<open>backtrack\<close> is on an assignment with strictly fewer
  variables whose domain holds more than one value (the chosen variable is narrowed to one
  value and \<^verbatim>\<open>inference\<close> only removes values), so the recursion is well-founded. The
  definition of \<open>backtrack\<close> above is accepted with this measure: it is a total function, for
  every CSP and every assignment.
\<close>

theorem backtrack_recursion_well_founded:
  "wf {(new_assignment, assignment). recursive_call assignment new_assignment}
   \<and> (\<forall>assignment new_assignment.
         recursive_call assignment new_assignment \<longrightarrow>
         unassigned new_assignment < unassigned assignment)"
  using recursive_call_wf recursive_call_decreases by blast

theorem backtrack_recursion_well_founded_witness:
  "recursive_call (domains equal_csp) [(PStr ''A'', [3]), (PStr ''B'', [3])]
   \<and> unassigned [(PStr ''A'', [3 :: int]), (PStr ''B'', [3])] < unassigned (domains equal_csp)"
proof -
  have s: "select_minimum_remaining_variable (domains equal_csp) = Some (PStr ''A'')"
    by code_simp
  have g: "getitem (domains equal_csp) (PStr ''A'') = Inr [1, 2, 3]"
    by code_simp
  have q: "get_all_neighboring_arcs equal_csp (PStr ''A'') = Inr [(PStr ''B'', PStr ''A'')]"
    by code_simp
  have i: "inference equal_csp (AList.update (PStr ''A'') [3] (domains equal_csp))
             [(PStr ''B'', PStr ''A'')] = Inr ([(PStr ''A'', [3]), (PStr ''B'', [3])], True)"
    by code_simp
  have r: "recursive_call (domains equal_csp) [(PStr ''A'', [3]), (PStr ''B'', [3])]"
    unfolding recursive_call_def using s g q i by fastforce
  with backtrack_recursion_well_founded show ?thesis by blast
qed

text \<open>
  C10. Let \<open>var\<close> be the variable the scan of \<^verbatim>\<open>select_minimum_remaining_variable\<close> settles
  on: its domain \<open>d\<close> holds more than one value, every variable iterated before it has a
  domain of at most one value or a strictly larger one, and every variable iterated after it
  has a domain of at most one value or one at least as large (so \<open>var\<close> is the only
  candidate or the first-encountered minimum). If the name \<open>var\<close> is falsy, the selection
  returns \<^verbatim>\<open>False\<close> and \<^verbatim>\<open>backtrack\<close> returns the assignment as a solution, although
  \<^verbatim>\<open>assignment[var]\<close> is still \<open>d\<close>.
\<close>

theorem falsy_name_ends_search:
  assumes "iteritems assignment = pre @ (var, d) # post"
    and "1 < length d"
    and "\<forall>(k, e)\<in>set pre. length e \<le> 1 \<or> length d < length e"
    and "\<forall>(k, e)\<in>set post. length e \<le> 1 \<or> length d \<le> length e"
    and "\<not> truthy var"
  shows "select_minimum_remaining_variable assignment = None
    \<and> backtrack csp assignment = Inr (Some assignment, csp\<lparr>b_counter := b_counter csp + 1\<rparr>)
    \<and> getitem assignment var = Inr d"
proof -
  have s: "select_minimum_remaining_variable assignment = None"
    using mrv_scan_first_minimum[OF assms(1-4)] assms(5)
    by (simp add: select_minimum_remaining_variable_def)
  have "(var, d) \<in> set (AList.clearjunk assignment)"
    using assms(1) by (simp add: iteritems_def)
  then have "map_of assignment var = Some d" by (simp add: clearjunk_member)
  with s show ?thesis by (simp add: getitem_def)
qed

theorem falsy_name_ends_search_witness:
  "iteritems [(PStr ''B'', [3 :: int]), (PStr [], [1, 2]), (PInt 5, [4, 5, 6])]
     = [(PStr ''B'', [3])] @ (PStr [], [1, 2]) # [(PInt 5, [4, 5, 6])]
   \<and> \<not> truthy (PStr [])
   \<and> select_minimum_remaining_variable
       [(PStr ''B'', [3 :: int]), (PStr [], [1, 2]), (PInt 5, [4, 5, 6])] = None
   \<and> backtrack equal_csp [(PStr ''B'', [3]), (PStr [], [1, 2]), (PInt 5, [4, 5, 6])]
     = Inr (Some [(PStr ''B'', [3]), (PStr [], [1, 2]), (PInt 5, [4, 5, 6])],
            equal_csp\<lparr>b_counter := 1\<rparr>)"
  using falsy_name_ends_search[of "[(PStr ''B'', [3]), (PStr [], [1, 2]), (PInt 5, [4, 5, 6])]"
      "[(PStr ''B'', [3])]" "PStr []" "[1, 2]" "[(PInt 5, [4, 5, 6])]" equal_csp]
  by (simp add: iteritems_def equal_csp_def)

end
